theory Spec2Isabelle
  imports Complex_Main
begin

unbundle bit_operations_syntax

section \<open>Data model of \<^verbatim>\<open>layout.py\<close>\<close>

text \<open>
  Python exceptions that the modelled code can raise. Every function that can raise
  returns \<open>error + 'r\<close>, with \<open>Inl\<close> the exception.
\<close>

datatype error = ZeroDivisionError | ValueError | AttributeError

text \<open>
  A page, as far as the layout sees it. \<open>body\<close> stands for everything the layout never
  writes (natural size, scale factors, contents); the remaining fields are the attributes
  that \<^verbatim>\<open>layout.py\<close> reads and writes on a page object: \<^verbatim>\<open>rotation\<close>,
  \<^verbatim>\<open>computedRotation\<close>, \<^verbatim>\<open>width\<close>, \<^verbatim>\<open>height\<close>, \<^verbatim>\<open>x\<close>, \<^verbatim>\<open>y\<close>.
  The field names carry a prefix because the layout has attributes of the same names.
\<close>

record 'a page =
  body :: 'a
  page_rotation :: int
  computedRotation :: int
  page_width :: int
  page_height :: int
  page_x :: int
  page_y :: int

text \<open>\<^verbatim>\<open>QMargins(left, top, right, bottom)\<close>.\<close>

record qmargins =
  m_left :: int
  m_top :: int
  m_right :: int
  m_bottom :: int

text \<open>
  The classes of \<^verbatim>\<open>layout.py\<close> whose position pass works on integers.
  \<^verbatim>\<open>RowPageLayout\<close> turns \<^verbatim>\<open>pagesPerSet\<close> and \<^verbatim>\<open>pagesFirstSet\<close> into
  properties that read \<^verbatim>\<open>pagesPerRow\<close> and \<^verbatim>\<open>pagesFirstRow\<close>.
\<close>

datatype layout_kind = AbstractPageLayout | RowPageLayout

text \<open>
  The layout object: the list of pages and the instance attributes. \<open>'f\<close> is the type of
  the float-valued attributes (zoom factor, dpi), which the layout only passes on to the
  page. \<open>rects\<close> is the cached \<^verbatim>\<open>_rects\<close> index: the pages it was built from.
\<close>

record ('a, 'f) layout =
  pages :: "'a page list"
  kind :: layout_kind
  margins :: qmargins
  spacing :: int
  zoomFactor :: 'f
  dpiX :: 'f
  dpiY :: 'f
  layout_rotation :: int
  layout_x :: int
  layout_y :: int
  layout_width :: int
  layout_height :: int
  continuousMode :: bool
  pagesPerSet_attr :: int
  pagesFirstSet_attr :: int
  currentPageSet :: int
  rects :: "'a page list option"
  pagesPerRow :: int
  pagesFirstRow :: int
  fitAllColumns :: bool

definition pagesPerSet :: "('a, 'f) layout \<Rightarrow> int" where
  "pagesPerSet L = (case kind L of RowPageLayout \<Rightarrow> pagesPerRow L | AbstractPageLayout \<Rightarrow> pagesPerSet_attr L)"

definition pagesFirstSet :: "('a, 'f) layout \<Rightarrow> int" where
  "pagesFirstSet L = (case kind L of RowPageLayout \<Rightarrow> pagesFirstRow L | AbstractPageLayout \<Rightarrow> pagesFirstSet_attr L)"

text \<open>\<^verbatim>\<open>__bool__\<close>, \<^verbatim>\<open>count\<close> and \<^verbatim>\<open>empty\<close>.\<close>

definition layout_bool :: "('a, 'f) layout \<Rightarrow> bool" where
  "layout_bool L = True"

definition count :: "('a, 'f) layout \<Rightarrow> int" where
  "count L = int (length (pages L))"

definition layout_empty :: "('a, 'f) layout \<Rightarrow> bool" where
  "layout_empty L = (length (pages L) = 0)"

section \<open>Page sets\<close>

text \<open>
  \<^verbatim>\<open>pageSets\<close>. Python's \<^verbatim>\<open>divmod\<close> on integers is floor division, as \<open>div\<close> and
  \<open>mod\<close> on \<open>int\<close> are; it raises for a zero divisor. The statement
  \<^verbatim>\<open>result[-1] == (result[-1][0] + 1, left)\<close> of the source is a comparison whose value
  is dropped: that branch leaves \<open>result\<close> as it is.
\<close>

definition pageSets :: "('a, 'f) layout \<Rightarrow> error + (int \<times> int) list" where
  "pageSets L =
    (let left = count L in
     if left \<noteq> 0 then
       (let (result, left) =
              (if pagesFirstSet L \<noteq> 0 \<and> pagesFirstSet L \<noteq> pagesPerSet L
               then (let len = min left (pagesFirstSet L) in ([(1, len)], left - len))
               else ([], left))
        in if left \<noteq> 0 then
             (if pagesPerSet L = 0 then Inl ZeroDivisionError
              else
                (let cnt = left div pagesPerSet L;
                     left = left mod pagesPerSet L;
                     result = (if cnt \<noteq> 0 then result @ [(cnt, pagesPerSet L)] else result)
                 in if left \<noteq> 0 then
                      (if result \<noteq> [] \<and> snd (last result) = left
                       then Inr result
                       else Inr (result @ [(1, left)]))
                    else Inr result))
           else Inr result)
     else Inr [])"

text \<open>\<^verbatim>\<open>pageSetCount\<close>: the sum of the run counts.\<close>

definition pageSetCount :: "('a, 'f) layout \<Rightarrow> error + int" where
  "pageSetCount L =
    (case pageSets L of Inl e \<Rightarrow> Inl e | Inr sets \<Rightarrow> Inr (sum_list (map fst sets)))"

text \<open>
  The loop of \<^verbatim>\<open>pageSet\<close>: \<open>s\<close> is the index at the start of the run, \<open>p\<close> the number
  of sets before it. Falling off the end of the list returns 0.
\<close>

fun pageSet_loop :: "int \<Rightarrow> int \<Rightarrow> int \<Rightarrow> (int \<times> int) list \<Rightarrow> error + int" where
  "pageSet_loop index s p [] = Inr 0"
| "pageSet_loop index s p ((cnt, len) # rest) =
    (if s + cnt * len < index then pageSet_loop index (s + cnt * len) (p + cnt) rest
     else if len = 0 then Inl ZeroDivisionError
     else Inr (p + (index - s) div len))"

definition pageSet :: "('a, 'f) layout \<Rightarrow> int \<Rightarrow> error + int" where
  "pageSet L index =
    (case pageSets L of Inl e \<Rightarrow> Inl e | Inr sets \<Rightarrow> pageSet_loop index 0 0 sets)"

text \<open>
  Python's \<^verbatim>\<open>xs[a:b]\<close>: a negative bound counts from the end, and both bounds are
  clipped to the list.
\<close>

definition slice_index :: "int \<Rightarrow> nat \<Rightarrow> nat" where
  "slice_index i n = (if i < 0 then nat (max 0 (i + int n)) else min (nat i) n)"

definition py_slice :: "'b list \<Rightarrow> int \<Rightarrow> int \<Rightarrow> 'b list" where
  "py_slice xs a b =
    (let lo = slice_index a (length xs); hi = slice_index b (length xs)
     in take (hi - lo) (drop lo xs))"

text \<open>
  The loop of \<^verbatim>\<open>displayPages\<close>: it returns the bounds of the slice, or \<open>None\<close> when the
  list of runs is used up without reaching set \<open>num\<close>.
\<close>

fun displayPages_loop :: "int \<Rightarrow> int \<Rightarrow> int \<Rightarrow> (int \<times> int) list \<Rightarrow> (int \<times> int) option" where
  "displayPages_loop num p s [] = None"
| "displayPages_loop num p s ((cnt, len) # rest) =
    (if p + cnt \<le> num then displayPages_loop num (p + cnt) (s + cnt * len) rest
     else (let s' = s + (num - p) * len in Some (s', s' + len)))"

text \<open>
  \<^verbatim>\<open>displayPages\<close> returns the pages to display and the layout, whose
  \<^verbatim>\<open>currentPageSet\<close> it may have overwritten.
\<close>

definition displayPages :: "('a, 'f) layout \<Rightarrow> error + ('a page list \<times> ('a, 'f) layout)" where
  "displayPages L =
    (if \<not> continuousMode L then
       (case pageSetCount L of
          Inl e \<Rightarrow> Inl e
        | Inr cnt \<Rightarrow>
            (let num = currentPageSet L;
                 clamp = (num \<noteq> 0 \<and> num \<ge> cnt);
                 num = (if clamp then cnt - 1 else num);
                 L' = (if clamp then L\<lparr>currentPageSet := cnt - 1\<rparr> else L)
             in case pageSets L' of
                  Inl e \<Rightarrow> Inl e
                | Inr sets \<Rightarrow>
                    (case displayPages_loop num 0 0 sets of
                       Some (a, b) \<Rightarrow> Inr (py_slice (pages L') a b, L')
                     | None \<Rightarrow> Inr (pages L', L'))))
     else Inr (pages L, L))"


section \<open>Rectangles\<close>

text \<open>
  The part of Qt's \<^verbatim>\<open>QRect\<close> that \<^verbatim>\<open>layout.py\<close> uses. A \<^verbatim>\<open>QRect\<close> stores its left,
  top, right and bottom coordinates; \<^verbatim>\<open>QRect(x, y, w, h)\<close> has right \<open>x + w - 1\<close> and
  bottom \<open>y + h - 1\<close>, and \<^verbatim>\<open>QRect()\<close> is the null rectangle \<^verbatim>\<open>QRect(0, 0, 0, 0)\<close>.
  Coordinates are unbounded integers here (Qt's are 32 bits wide).
\<close>

record qrect =
  r_left :: int
  r_top :: int
  r_right :: int
  r_bottom :: int

definition QRect :: "int \<Rightarrow> int \<Rightarrow> int \<Rightarrow> int \<Rightarrow> qrect" where
  "QRect x y w h = \<lparr>r_left = x, r_top = y, r_right = x + w - 1, r_bottom = y + h - 1\<rparr>"

definition isNull :: "qrect \<Rightarrow> bool" where
  "isNull r = (r_right r = r_left r - 1 \<and> r_bottom r = r_top r - 1)"

text \<open>
  \<^verbatim>\<open>a | b\<close>, the bounding rectangle: a null operand is ignored, and an operand whose
  right is left of its left (or bottom above its top) is normalized first.
\<close>

definition united :: "qrect \<Rightarrow> qrect \<Rightarrow> qrect" where
  "united a b =
    (if isNull a then b
     else if isNull b then a
     else
       (let l1 = (if r_right a < r_left a - 1 then r_right a + 1 else r_left a);
            r1 = (if r_right a < r_left a - 1 then r_left a - 1 else r_right a);
            l2 = (if r_right b < r_left b - 1 then r_right b + 1 else r_left b);
            r2 = (if r_right b < r_left b - 1 then r_left b - 1 else r_right b);
            t1 = (if r_bottom a < r_top a - 1 then r_bottom a + 1 else r_top a);
            b1 = (if r_bottom a < r_top a - 1 then r_top a - 1 else r_bottom a);
            t2 = (if r_bottom b < r_top b - 1 then r_bottom b + 1 else r_top b);
            b2 = (if r_bottom b < r_top b - 1 then r_top b - 1 else r_bottom b)
        in \<lparr>r_left = min l1 l2, r_top = min t1 t2, r_right = max r1 r2, r_bottom = max b1 b2\<rparr>))"

text \<open>\<^verbatim>\<open>rect + margins\<close> and \<^verbatim>\<open>rect.getRect()\<close>, which is \<open>(x, y, width, height)\<close>.\<close>

definition marginsAdded :: "qrect \<Rightarrow> qmargins \<Rightarrow> qrect" where
  "marginsAdded r m =
    \<lparr>r_left = r_left r - m_left m, r_top = r_top r - m_top m,
     r_right = r_right r + m_right m, r_bottom = r_bottom r + m_bottom m\<rparr>"

definition getRect :: "qrect \<Rightarrow> int \<times> int \<times> int \<times> int" where
  "getRect r = (r_left r, r_top r, r_right r - r_left r + 1, r_bottom r - r_top r + 1)"

text \<open>
  Modelled from the spec: \<^verbatim>\<open>Page.geometry()\<close> (\<^verbatim>\<open>page.py\<close> is not among the sources):
  the rectangle at the page's position with the page's computed width and height.
\<close>

definition page_geometry :: "'a page \<Rightarrow> qrect" where
  "page_geometry p = QRect (page_x p) (page_y p) (page_width p) (page_height p)"

text \<open>\<^verbatim>\<open>geometry\<close> and \<^verbatim>\<open>setGeometry\<close> of the layout.\<close>

definition geometry :: "('a, 'f) layout \<Rightarrow> qrect" where
  "geometry L = QRect (layout_x L) (layout_y L) (layout_width L) (layout_height L)"

definition setGeometry :: "('a, 'f) layout \<Rightarrow> qrect \<Rightarrow> ('a, 'f) layout" where
  "setGeometry L rect =
    (case getRect rect of
       (x, y, w, h) \<Rightarrow> L\<lparr>layout_x := x, layout_y := y, layout_width := w, layout_height := h\<rparr>)"

section \<open>The update pipeline\<close>

text \<open>
  \<^verbatim>\<open>updatePageSizes\<close>. The page's \<^verbatim>\<open>computeSize(rotation, dpiX, dpiY, zoomFactor)\<close> is
  a method of \<^verbatim>\<open>page.py\<close>, which is not among the sources: it is the parameter
  \<open>computeSize\<close>, a function of the page's own data and its four arguments. On Python's
  integers \<^verbatim>\<open>& 3\<close> is the remainder modulo 4, also for a negative sum.
\<close>

definition updatePageSizes ::
  "('a \<Rightarrow> int \<Rightarrow> 'f \<Rightarrow> 'f \<Rightarrow> 'f \<Rightarrow> int \<times> int) \<Rightarrow> ('a, 'f) layout \<Rightarrow> ('a, 'f) layout" where
  "updatePageSizes computeSize L =
    L\<lparr>pages :=
        map (\<lambda>p. let rotation = (page_rotation p + layout_rotation L) AND 3
                 in case computeSize (body p) rotation (dpiX L) (dpiY L) (zoomFactor L) of
                      (w, h) \<Rightarrow> p\<lparr>computedRotation := rotation, page_width := w, page_height := h\<rparr>)
            (pages L)\<rparr>"

text \<open>
  \<^verbatim>\<open>AbstractPageLayout.updatePagePositions\<close>: the pages below each other, from \<open>top\<close>
  on.
\<close>

fun stack_pages :: "int \<Rightarrow> int \<Rightarrow> int \<Rightarrow> 'a page list \<Rightarrow> 'a page list" where
  "stack_pages left sp ytop [] = []"
| "stack_pages left sp ytop (p # ps) =
     p\<lparr>page_x := left, page_y := ytop\<rparr> # stack_pages left sp (ytop + page_height p + sp) ps"

text \<open>
  Python's \<^verbatim>\<open>range(start, stop, step)\<close> for a positive step, \<^verbatim>\<open>xs[start::step]\<close>, and
  \<^verbatim>\<open>max\<close> of a sequence of integers, which raises \<^verbatim>\<open>ValueError\<close> when the sequence is
  empty.
\<close>

definition py_range :: "nat \<Rightarrow> nat \<Rightarrow> nat \<Rightarrow> nat list" where
  "py_range start stop step =
     map (\<lambda>k. start + k * step) [0..<(stop - start + step - 1) div step]"

definition slice_from_step :: "'b list \<Rightarrow> nat \<Rightarrow> nat \<Rightarrow> 'b list" where
  "slice_from_step xs start step = map (\<lambda>i. xs ! i) (py_range start (length xs) step)"

definition py_max :: "int list \<Rightarrow> error + int" where
  "py_max xs = (case xs of [] \<Rightarrow> Inl ValueError | v # rest \<Rightarrow> Inr (fold max rest v))"

text \<open>
  \<^verbatim>\<open>RowPageLayout.updatePagePositions\<close>. The list \<^verbatim>\<open>pages\<close> of the source holds the
  page objects of the layout behind placeholders (\<open>None\<close>). First the loop over the
  columns: the width of a column is the largest width of the pages in it, and the columns
  follow each other from \<open>offset\<close> on.
\<close>

fun columns_loop ::
  "int \<Rightarrow> 'a page option list \<Rightarrow> nat \<Rightarrow> int \<Rightarrow> nat list \<Rightarrow> error + (int list \<times> int list)" where
  "columns_loop sp pgs cols offset [] = Inr ([], [])"
| "columns_loop sp pgs cols offset (col # rest) =
    (case py_max (map page_width [p. Some p \<leftarrow> slice_from_step pgs col cols]) of
       Inl e \<Rightarrow> Inl e
     | Inr width \<Rightarrow>
         (case columns_loop sp pgs cols (offset + width + sp) rest of
            Inl e \<Rightarrow> Inl e
          | Inr (col_widths, col_offsets) \<Rightarrow> Inr (width # col_widths, offset # col_offsets)))"

text \<open>
  The inner loop over the slots of a row, and the loop over the rows. Slot \<open>n\<close> of a row
  is in column \<open>n\<close>; a row has at most as many slots as there are columns.
\<close>

definition place_row ::
  "int list \<Rightarrow> int list \<Rightarrow> int \<Rightarrow> int \<Rightarrow> 'a page option list \<Rightarrow> 'a page option list" where
  "place_row col_widths col_offsets ytop height row =
     map (\<lambda>(n, page).
            case page of
              None \<Rightarrow> None
            | Some p \<Rightarrow>
                Some (p\<lparr>page_x := col_offsets ! n + (col_widths ! n - page_width p) div 2,
                        page_y := ytop + (height - page_height p) div 2\<rparr>))
         (enumerate 0 row)"

fun rows_loop ::
  "int list \<Rightarrow> int list \<Rightarrow> int \<Rightarrow> int \<Rightarrow> 'a page option list list
     \<Rightarrow> error + 'a page option list list" where
  "rows_loop col_widths col_offsets sp ytop [] = Inr []"
| "rows_loop col_widths col_offsets sp ytop (row # rest) =
    (case py_max (map page_height [p. Some p \<leftarrow> row]) of
       Inl e \<Rightarrow> Inl e
     | Inr height \<Rightarrow>
         (case rows_loop col_widths col_offsets sp (ytop + height + sp) rest of
            Inl e \<Rightarrow> Inl e
          | Inr rows \<Rightarrow> Inr (place_row col_widths col_offsets ytop height row # rows)))"

text \<open>
  The list \<^verbatim>\<open>pages\<close> and the number \<^verbatim>\<open>cols\<close> after the first \<^verbatim>\<open>if\<close> of the method:
  \<^verbatim>\<open>[None] * k\<close> is empty for \<open>k \<le> 0\<close>, and \<^verbatim>\<open>% cols\<close> raises for \<open>cols = 0\<close>.
\<close>

definition row_pages :: "('a, 'f) layout \<Rightarrow> error + ('a page option list \<times> int)" where
  "row_pages L =
    (if int (length (pages L)) > pagesPerRow L
     then (if pagesPerRow L = 0 then Inl ZeroDivisionError
           else Inr (replicate (nat ((pagesPerRow L - pagesFirstRow L) mod pagesPerRow L)) None
                       @ map Some (pages L),
                     pagesPerRow L))
     else Inr (map Some (pages L), int (length (pages L))))"

text \<open>
  The rows: \<^verbatim>\<open>pages[i:i + cols] for i in range(0, len(pages), cols or 1)\<close>. The range is
  empty for a negative step.
\<close>

definition rows_of :: "'b list \<Rightarrow> int \<Rightarrow> 'b list list" where
  "rows_of pgs cols =
    (if cols < 0 then []
     else map (\<lambda>i. take (nat cols) (drop i pgs))
              (py_range 0 (length pgs) (if cols = 0 then 1 else nat cols)))"

text \<open>
  The whole method. The source writes the positions into the page objects. Unless
  \<open>cols\<close> is negative, the rows hold every page object of the layout once and in order,
  so that the pages of the layout after the loop are the pages of the rows. When
  \<open>cols\<close> is negative (a negative \<^verbatim>\<open>pagesPerRow\<close>), \<^verbatim>\<open>range(cols)\<close> and the rows are
  empty and no page is touched.
\<close>

definition updatePagePositions_row :: "('a, 'f) layout \<Rightarrow> error + ('a, 'f) layout" where
  "updatePagePositions_row L =
    (case row_pages L of
       Inl e \<Rightarrow> Inl e
     | Inr (pgs, cols) \<Rightarrow>
         (case columns_loop (spacing L) pgs (nat cols) (m_left (margins L)) [0..<nat cols] of
            Inl e \<Rightarrow> Inl e
          | Inr (col_widths, col_offsets) \<Rightarrow>
              (case rows_loop col_widths col_offsets (spacing L) (m_top (margins L))
                      (rows_of pgs cols) of
                 Inl e \<Rightarrow> Inl e
               | Inr rows \<Rightarrow>
                   Inr (if cols < 0 then L else L\<lparr>pages := [p. Some p \<leftarrow> concat rows]\<rparr>))))"

text \<open>\<^verbatim>\<open>updatePagePositions\<close>, by the class of the layout.\<close>

definition updatePagePositions :: "('a, 'f) layout \<Rightarrow> error + ('a, 'f) layout" where
  "updatePagePositions L =
    (case kind L of
       AbstractPageLayout \<Rightarrow>
         Inr (L\<lparr>pages := stack_pages (m_left (margins L)) (spacing L) (m_top (margins L)) (pages L)\<rparr>)
     | RowPageLayout \<Rightarrow> updatePagePositions_row L)"

text \<open>
  \<^verbatim>\<open>computeGeometry\<close>: the bounding rectangle of the displayed pages, with the margins
  added. It returns the layout as well, because \<^verbatim>\<open>displayPages\<close> may write
  \<^verbatim>\<open>currentPageSet\<close>.
\<close>

definition computeGeometry :: "('a, 'f) layout \<Rightarrow> error + (qrect \<times> ('a, 'f) layout)" where
  "computeGeometry L =
    (case displayPages L of
       Inl e \<Rightarrow> Inl e
     | Inr (ps, L') \<Rightarrow>
         Inr (marginsAdded (foldl united (QRect 0 0 0 0) (map page_geometry ps)) (margins L'), L'))"

text \<open>\<^verbatim>\<open>update\<close> returns the layout after the update and the flag \<^verbatim>\<open>changed\<close>.\<close>

definition update ::
  "('a \<Rightarrow> int \<Rightarrow> 'f \<Rightarrow> 'f \<Rightarrow> 'f \<Rightarrow> int \<times> int) \<Rightarrow> ('a, 'f) layout
     \<Rightarrow> error + (('a, 'f) layout \<times> bool)" where
  "update computeSize L =
    (case updatePagePositions (updatePageSizes computeSize (L\<lparr>rects := None\<rparr>)) of
       Inl e \<Rightarrow> Inl e
     | Inr L' \<Rightarrow>
         (case computeGeometry L' of
            Inl e \<Rightarrow> Inl e
          | Inr (rect, L'') \<Rightarrow>
              (let changed = (geometry L'' \<noteq> rect)
               in Inr (setGeometry L'' rect, changed))))"


section \<open>Reference definitions\<close>

text \<open>
  The definitions of this section are not translations of the source: they state what
  the specification says a result should be, or name an intermediate value of a proof.
\<close>

subsection \<open>Page sets\<close>

text \<open>The number of pages that a list of runs covers.\<close>

definition runs_total :: "(int \<times> int) list \<Rightarrow> int" where
  "runs_total sets = sum_list (map (\<lambda>(cnt, len). cnt * len) sets)"

text \<open>
  The part of \<^verbatim>\<open>pageSets\<close> after the first set: \<open>result\<close> holds the runs so far,
  \<open>left\<close> the pages still to distribute.
\<close>

definition regular_runs :: "int \<Rightarrow> (int \<times> int) list \<Rightarrow> int \<Rightarrow> error + (int \<times> int) list" where
  "regular_runs per result left =
     (if left \<noteq> 0 then
        (if per = 0 then Inl ZeroDivisionError
         else
           (let cnt = left div per;
                left = left mod per;
                result = (if cnt \<noteq> 0 then result @ [(cnt, per)] else result)
            in if left \<noteq> 0 then
                 (if result \<noteq> [] \<and> snd (last result) = left
                  then Inr result
                  else Inr (result @ [(1, left)]))
               else Inr result))
      else Inr result)"

text \<open>All partial sums of the runs, started at \<open>s\<close>, are below \<open>index\<close>.\<close>

fun prefix_below :: "int \<Rightarrow> int \<Rightarrow> (int \<times> int) list \<Rightarrow> bool" where
  "prefix_below index s [] = True"
| "prefix_below index s ((cnt, len) # rest) =
     (s + cnt * len < index \<and> prefix_below index (s + cnt * len) rest)"

text \<open>
  The specification's reading of \<^verbatim>\<open>pageSet\<close>: walk the runs, accumulating page
  counts, until the index falls within a run's span \<open>[s, s + cnt * len)\<close>; \<open>None\<close> when
  no run contains the index.
\<close>

fun run_containing :: "int \<Rightarrow> int \<Rightarrow> int \<Rightarrow> (int \<times> int) list \<Rightarrow> int option" where
  "run_containing index s p [] = None"
| "run_containing index s p ((cnt, len) # rest) =
    (if s \<le> index \<and> index < s + cnt * len then Some (p + (index - s) div len)
     else run_containing index (s + cnt * len) (p + cnt) rest)"

text \<open>
  The runs written out, one length per page set, and the pages of set \<open>k\<close>: those after
  the pages of the sets before it.
\<close>

definition set_lengths :: "(int \<times> int) list \<Rightarrow> int list" where
  "set_lengths sets = concat (map (\<lambda>(cnt, len). replicate (nat cnt) len) sets)"

definition pages_of_set :: "'b list \<Rightarrow> (int \<times> int) list \<Rightarrow> nat \<Rightarrow> 'b list" where
  "pages_of_set ps sets k =
     take (nat (set_lengths sets ! k)) (drop (nat (sum_list (take k (set_lengths sets)))) ps)"

subsection \<open>The grid of a row layout\<close>

text \<open>
  The grid as the specification describes it. The pages are moved right by \<open>pad\<close>
  empty slots and fill a grid of \<open>cols\<close> columns row by row: page \<open>i\<close> is in column
  \<open>(i + pad) mod cols\<close> of row \<open>(i + pad) div cols\<close>. The width of a column is the largest
  width of its pages, the height of a row the largest height of its pages.
\<close>

definition col_width_of :: "int list \<Rightarrow> nat \<Rightarrow> nat \<Rightarrow> nat \<Rightarrow> int" where
  "col_width_of ws pad cols c =
     Max (set [ws ! i. i \<leftarrow> [0..<length ws], (i + pad) mod cols = c])"

definition row_height_of :: "int list \<Rightarrow> nat \<Rightarrow> nat \<Rightarrow> nat \<Rightarrow> int" where
  "row_height_of hs pad cols r =
     Max (set [hs ! i. i \<leftarrow> [0..<length hs], (i + pad) div cols = r])"

text \<open>
  The number of empty slots before the first page and the number of columns, as the
  specification gives them for a positive \<^verbatim>\<open>pagesPerRow\<close>.
\<close>

definition grid_pad :: "('a, 'f) layout \<Rightarrow> nat" where
  "grid_pad L =
     (if int (length (pages L)) > pagesPerRow L
      then nat ((pagesPerRow L - pagesFirstRow L) mod pagesPerRow L) else 0)"

definition grid_cols :: "('a, 'f) layout \<Rightarrow> nat" where
  "grid_cols L =
     (if int (length (pages L)) > pagesPerRow L then nat (pagesPerRow L) else length (pages L))"

text \<open>
  The position of page \<open>i\<close>: its column starts after the columns left of it, each with
  the spacing, and the page is centered in the width of the column; likewise for the
  rows.
\<close>

definition grid_x :: "('a, 'f) layout \<Rightarrow> nat \<Rightarrow> int" where
  "grid_x L i =
     (let ws = map page_width (pages L);
          c = (i + grid_pad L) mod grid_cols L
      in m_left (margins L)
         + sum_list (map (\<lambda>k. col_width_of ws (grid_pad L) (grid_cols L) k + spacing L) [0..<c])
         + (col_width_of ws (grid_pad L) (grid_cols L) c - page_width (pages L ! i)) div 2)"

definition grid_y :: "('a, 'f) layout \<Rightarrow> nat \<Rightarrow> int" where
  "grid_y L i =
     (let hs = map page_height (pages L);
          r = (i + grid_pad L) div grid_cols L
      in m_top (margins L)
         + sum_list (map (\<lambda>q. row_height_of hs (grid_pad L) (grid_cols L) q + spacing L) [0..<r])
         + (row_height_of hs (grid_pad L) (grid_cols L) r - page_height (pages L ! i)) div 2)"

definition grid_positions :: "('a, 'f) layout \<Rightarrow> 'a page list" where
  "grid_positions L =
     map (\<lambda>i. (pages L ! i)\<lparr>page_x := grid_x L i, page_y := grid_y L i\<rparr>) [0..<length (pages L)]"

text \<open>
  For the proofs: a grid is well formed when it has a column, the empty slots do not
  fill a row, and the first row of pages is full; and the offsets of consecutive columns
  (or rows) of given extents.
\<close>

definition grid_ok :: "'b list \<Rightarrow> nat \<Rightarrow> nat \<Rightarrow> bool" where
  "grid_ok ps pad cols = (1 \<le> cols \<and> pad < cols \<and> cols \<le> length ps)"

fun running_offsets :: "(nat \<Rightarrow> int) \<Rightarrow> int \<Rightarrow> int \<Rightarrow> nat list \<Rightarrow> int list" where
  "running_offsets ext sp start [] = []"
| "running_offsets ext sp start (k # ks) = start # running_offsets ext sp (start + ext k + sp) ks"


section \<open>Example layouts\<close>

text \<open>
  A page as the layout first sees it, and a layout with the class-level defaults of
  \<^verbatim>\<open>AbstractPageLayout\<close> and \<^verbatim>\<open>RowPageLayout\<close>.
\<close>

definition blank_page :: "'a \<Rightarrow> 'a page" where
  "blank_page b = \<lparr>body = b, page_rotation = 0, computedRotation = 0,
     page_width = 0, page_height = 0, page_x = 0, page_y = 0\<rparr>"

definition new_layout :: "layout_kind \<Rightarrow> 'a page list \<Rightarrow> ('a, rat) layout" where
  "new_layout k ps = \<lparr>pages = ps, kind = k,
     margins = \<lparr>m_left = 6, m_top = 6, m_right = 6, m_bottom = 6\<rparr>, spacing = 8,
     zoomFactor = 1, dpiX = 72, dpiY = 72, layout_rotation = 0,
     layout_x = 0, layout_y = 0, layout_width = 0, layout_height = 0,
     continuousMode = True, pagesPerSet_attr = 1, pagesFirstSet_attr = 0,
     currentPageSet = 0, rects = None,
     pagesPerRow = 2, pagesFirstRow = 1, fitAllColumns = True\<rparr>"

text \<open>A \<^verbatim>\<open>RowPageLayout\<close> with its default parameters and two pages.\<close>

definition two_page_rows :: "(nat, rat) layout" where
  "two_page_rows = new_layout RowPageLayout (map blank_page [0, 1])"

text \<open>Four pages, two in the first set and three in every other set.\<close>

definition four_pages :: "(nat, rat) layout" where
  "four_pages = (new_layout AbstractPageLayout (map blank_page [0, 1, 2, 3]))
     \<lparr>pagesFirstSet_attr := 2, pagesPerSet_attr := 3\<rparr>"

text \<open>A layout with the default parameters and one page.\<close>

definition one_page :: "(nat, rat) layout" where
  "one_page = new_layout AbstractPageLayout [blank_page 0]"

text \<open>Seven pages shown one set at a time: one page, then sets of three.\<close>

definition seven_pages :: "(nat, rat) layout" where
  "seven_pages = (new_layout AbstractPageLayout (map blank_page [0, 1, 2, 3, 4, 5, 6]))
     \<lparr>continuousMode := False, pagesFirstSet_attr := 1, pagesPerSet_attr := 3,
       currentPageSet := 5\<rparr>"

text \<open>
  Seven pages of growing sizes in rows of three, with one page in the first row.
\<close>

definition sized_page :: "'a \<Rightarrow> int \<Rightarrow> int \<Rightarrow> 'a page" where
  "sized_page b w h = (blank_page b)\<lparr>page_width := w, page_height := h\<rparr>"

definition grid7 :: "(nat, rat) layout" where
  "grid7 = (new_layout RowPageLayout
      [sized_page 0 10 5, sized_page 1 20 15, sized_page 2 30 25, sized_page 3 40 35,
       sized_page 4 50 45, sized_page 5 60 55, sized_page 6 70 65])\<lparr>pagesPerRow := 3\<rparr>"


section \<open>Truth value of a layout\<close>

text \<open>
  C10. \<^verbatim>\<open>bool(layout)\<close> is True for every layout of either class, the empty ones
  included: \<^verbatim>\<open>__bool__\<close> is constant, so it cannot tell an empty layout from another,
  while \<^verbatim>\<open>empty()\<close> holds exactly when \<^verbatim>\<open>count()\<close> is 0.
\<close>

theorem layout_bool_always_True:
  "layout_bool L \<and> layout_bool (L\<lparr>pages := []\<rparr>) \<and> layout_bool L = layout_bool L'
   \<and> layout_empty L = (count L = 0) \<and> layout_empty (L\<lparr>pages := []\<rparr>)"
  by (simp add: layout_bool_def layout_empty_def count_def)


section \<open>Page sets: \<^verbatim>\<open>pageSets\<close>, \<^verbatim>\<open>pageSet\<close> and \<^verbatim>\<open>displayPages\<close>\<close>

subsection \<open>The shape of the runs\<close>

lemma pageSets_unfold:
  "pageSets L =
    (if count L = 0 then Inr []
     else if pagesFirstSet L \<noteq> 0 \<and> pagesFirstSet L \<noteq> pagesPerSet L
     then regular_runs (pagesPerSet L) [(1, min (count L) (pagesFirstSet L))] (count L - min (count L) (pagesFirstSet L))
     else regular_runs (pagesPerSet L) [] (count L))"
  by (simp add: pageSets_def regular_runs_def Let_def)

lemma regular_runs_nonempty:
  "regular_runs per result left = Inr sets \<Longrightarrow> result \<noteq> [] \<or> left \<noteq> 0 \<Longrightarrow> sets \<noteq> []"
  by (auto simp: regular_runs_def Let_def split: if_splits)

lemma pageSets_empty_iff:
  "pageSets L = Inr sets \<Longrightarrow> (sets = [] \<longleftrightarrow> count L = 0)"
  by (auto simp: pageSets_unfold split: if_splits dest: regular_runs_nonempty)

lemma count_nonneg: "0 \<le> count L" by (simp add: count_def)

lemma div_times_eq: "(a::int) div b * b = a - a mod b"
  by (simp add: minus_mod_eq_div_mult)

lemma regular_runs_cases:
  assumes "regular_runs per result left = Inr sets" "1 \<le> per" "0 \<le> left"
  shows "(left = 0 \<and> sets = result)
       \<or> (left \<noteq> 0 \<and> left mod per = 0 \<and> sets = result @ [(left div per, per)] \<and> 1 \<le> left div per)
       \<or> (left mod per \<noteq> 0 \<and> 1 \<le> left div per \<and> sets = result @ [(left div per, per), (1, left mod per)])
       \<or> (left mod per \<noteq> 0 \<and> left div per = 0 \<and> (result = [] \<or> snd (last result) \<noteq> left) \<and> sets = result @ [(1, left)])
       \<or> (left mod per \<noteq> 0 \<and> left div per = 0 \<and> result \<noteq> [] \<and> snd (last result) = left \<and> sets = result)"
proof -
  have d: "0 \<le> left div per" using assms by (simp add: pos_imp_zdiv_nonneg_iff)
  have m: "left mod per < per" "0 \<le> left mod per" using assms by auto
  have z: "left div per = 0 \<Longrightarrow> left mod per = left"
    using div_mult_mod_eq[of left per] by simp
  show ?thesis
  proof (cases "left = 0")
    case True
    then show ?thesis using assms by (simp add: regular_runs_def)
  next
    case False
    show ?thesis
    proof (cases "left div per = 0")
      case True
      then show ?thesis using assms False z
        by (auto simp: regular_runs_def Let_def split: if_splits)
    next
      case False
      then have "1 \<le> left div per" using d by linarith
      then show ?thesis using assms m \<open>left \<noteq> 0\<close>
        by (auto simp: regular_runs_def Let_def split: if_splits)
    qed
  qed
qed


lemma divmod_facts:
  assumes "1 \<le> (per::int)" "0 \<le> left"
  shows "0 \<le> left div per" "0 \<le> left mod per" "left mod per < per"
        "left div per * per = left - left mod per"
        "left div per = 0 \<Longrightarrow> left mod per = left"
        "left < per \<Longrightarrow> left div per = 0"
proof -
  show "0 \<le> left div per" using assms by (simp add: pos_imp_zdiv_nonneg_iff)
  show "0 \<le> left mod per" "left mod per < per" using assms by auto
  show "left div per * per = left - left mod per" by (rule div_times_eq)
  show "left div per = 0 \<Longrightarrow> left mod per = left"
    using div_mult_mod_eq[of left per] by simp
  show "left < per \<Longrightarrow> left div per = 0" using assms by simp
qed

lemma pageSets_total:
  assumes "pageSets L = Inr sets" "1 \<le> pagesPerSet L"
  shows "if count L = 2 * pagesFirstSet L \<and> 0 < pagesFirstSet L \<and> pagesFirstSet L < pagesPerSet L
         then sets = [(1, pagesFirstSet L)]
         else runs_total sets = count L"
proof (cases "count L = 0")
  case True
  then show ?thesis using assms by (simp add: pageSets_unfold runs_total_def)
next
  case False
  then have pos: "0 < count L" using count_nonneg[of L] by linarith
  show ?thesis
  proof (cases "pagesFirstSet L \<noteq> 0 \<and> pagesFirstSet L \<noteq> pagesPerSet L")
    case True
    define f where "f = min (count L) (pagesFirstSet L)"
    define left where "left = count L - f"
    have rr: "regular_runs (pagesPerSet L) [(1, f)] left = Inr sets"
      using assms True False by (simp add: pageSets_unfold f_def left_def)
    have l0: "0 \<le> left" by (simp add: left_def f_def)
    note c = regular_runs_cases[OF rr assms(2) l0]
    note dm = divmod_facts[OF assms(2) l0]
    have fl: "f = pagesFirstSet L \<or> (f = count L \<and> count L \<le> pagesFirstSet L)"
      by (auto simp: f_def min_def)
    have n: "count L = left + f" by (simp add: left_def)
    from c show ?thesis
      using True pos dm fl n by (auto simp: runs_total_def)
  next
    case False
    have rr: "regular_runs (pagesPerSet L) [] (count L) = Inr sets"
      using assms False \<open>count L \<noteq> 0\<close> by (auto simp add: pageSets_unfold)
    note c = regular_runs_cases[OF rr assms(2) count_nonneg[of L]]
    note dm = divmod_facts[OF assms(2) count_nonneg[of L]]
    have "runs_total sets = count L"
      using c dm by (auto simp: runs_total_def)
    moreover have "\<not> (count L = 2 * pagesFirstSet L \<and> 0 < pagesFirstSet L \<and> pagesFirstSet L < pagesPerSet L)"
      using False by auto
    ultimately show ?thesis by auto
  qed
qed


text \<open>Every run has a positive count and a positive length.\<close>

lemma pageSets_runs_positive:
  assumes "pageSets L = Inr sets" "1 \<le> pagesPerSet L" "0 \<le> pagesFirstSet L"
      and "(cnt, len) \<in> set sets"
  shows "1 \<le> cnt \<and> 1 \<le> len"
proof (cases "count L = 0")
  case True
  then show ?thesis using assms by (simp add: pageSets_unfold)
next
  case False
  then have pos: "0 < count L" using count_nonneg[of L] by linarith
  show ?thesis
  proof (cases "pagesFirstSet L \<noteq> 0 \<and> pagesFirstSet L \<noteq> pagesPerSet L")
    case True
    define f where "f = min (count L) (pagesFirstSet L)"
    define left where "left = count L - f"
    have rr: "regular_runs (pagesPerSet L) [(1, f)] left = Inr sets"
      using assms True False by (simp add: pageSets_unfold f_def left_def)
    have l0: "0 \<le> left" by (simp add: left_def f_def)
    note c = regular_runs_cases[OF rr assms(2) l0]
    note dm = divmod_facts[OF assms(2) l0]
    have fl: "1 \<le> f" using True pos assms(3) by (auto simp: f_def min_def)
    from c show ?thesis
      using assms(2,4) dm fl by auto
  next
    case False
    have rr: "regular_runs (pagesPerSet L) [] (count L) = Inr sets"
      using assms False \<open>count L \<noteq> 0\<close> by (auto simp add: pageSets_unfold)
    note c = regular_runs_cases[OF rr assms(2) count_nonneg[of L]]
    note dm = divmod_facts[OF assms(2) count_nonneg[of L]]
    from c show ?thesis
      using assms(2,4) dm pos by auto
  qed
qed

lemma pageSet_loop_prefix_below:
  "prefix_below index s sets \<Longrightarrow> pageSet_loop index s p sets = Inr 0"
  by (induction sets arbitrary: s p) auto

lemma pageSets_prefix_below:
  assumes "pageSets L = Inr sets" "1 \<le> pagesPerSet L" "count L < index"
  shows "prefix_below index 0 sets"
proof (cases "count L = 0")
  case True
  then show ?thesis using assms by (simp add: pageSets_unfold)
next
  case False
  then have pos: "0 < count L" using count_nonneg[of L] by linarith
  show ?thesis
  proof (cases "pagesFirstSet L \<noteq> 0 \<and> pagesFirstSet L \<noteq> pagesPerSet L")
    case True
    define f where "f = min (count L) (pagesFirstSet L)"
    define left where "left = count L - f"
    have rr: "regular_runs (pagesPerSet L) [(1, f)] left = Inr sets"
      using assms True False by (simp add: pageSets_unfold f_def left_def)
    have l0: "0 \<le> left" by (simp add: left_def f_def)
    note c = regular_runs_cases[OF rr assms(2) l0]
    note dm = divmod_facts[OF assms(2) l0]
    have n: "count L = left + f" by (simp add: left_def)
    from c show ?thesis
      using assms(2,3) dm n l0 by auto
  next
    case False
    have rr: "regular_runs (pagesPerSet L) [] (count L) = Inr sets"
      using assms False \<open>count L \<noteq> 0\<close> by (auto simp add: pageSets_unfold)
    note c = regular_runs_cases[OF rr assms(2) count_nonneg[of L]]
    note dm = divmod_facts[OF assms(2) count_nonneg[of L]]
    from c show ?thesis
      using assms(2,3) dm pos by auto
  qed
qed

lemma pageSets_returns:
  "1 \<le> pagesPerSet L \<Longrightarrow> \<exists>sets. pageSets L = Inr sets"
  by (auto simp: pageSets_unfold regular_runs_def Let_def)

subsection \<open>\<^verbatim>\<open>pageSets\<close>\<close>

lemma pageSets_two_page_rows: "pageSets two_page_rows = Inr [(1, 1)]"
  by (simp add: pageSets_def two_page_rows_def new_layout_def count_def
      pagesFirstSet_def pagesPerSet_def Let_def)

text \<open>
  C1. A \<^verbatim>\<open>RowPageLayout\<close> with its default parameters (two pages per row, one in the
  first row) and two pages: \<^verbatim>\<open>pageSets()\<close> returns the single run \<open>(1, 1)\<close>, which
  covers one page of the two. The second page is the leftover run, whose length equals
  the length of the run before it; the source then compares where it means to assign,
  and the leftover is lost. So the sum of \<open>run_count * set_length\<close> is not the page count.
\<close>

theorem pageSets_loses_leftover_run:
  "count two_page_rows = 2 \<and> pageSets two_page_rows = Inr [(1, 1)] \<and> runs_total [(1, 1)] = 1"
  by (simp add: pageSets_two_page_rows runs_total_def) (simp add: two_page_rows_def new_layout_def count_def)

subsection \<open>\<^verbatim>\<open>pageSet\<close>\<close>

lemma pageSet_loop_run_containing:
  assumes "\<forall>(cnt, len) \<in> set sets. 1 \<le> cnt \<and> 1 \<le> len"
      and "s \<le> index" "index < s + runs_total sets"
  shows "\<exists>k. run_containing index s p sets = Some k \<and> pageSet_loop index s p sets = Inr k"
  using assms
proof (induction sets arbitrary: s p)
  case Nil
  then show ?case by (simp add: runs_total_def)
next
  case (Cons r sets)
  obtain cnt len where r: "r = (cnt, len)" by (cases r)
  have pos: "1 \<le> cnt" "1 \<le> len" using Cons.prems(1) r by auto
  have tot: "runs_total (r # sets) = cnt * len + runs_total sets"
    by (simp add: runs_total_def r)
  show ?case
  proof (cases "index < s + cnt * len")
    case True
    then show ?thesis using Cons.prems pos r by auto
  next
    case False
    show ?thesis
    proof (cases "index = s + cnt * len")
      case True
      have nonempty: "sets \<noteq> []" using Cons.prems(3) tot True by (auto simp: runs_total_def)
      then obtain c2 l2 rest where sets: "sets = (c2, l2) # rest" by (cases sets) auto
      have pos2: "1 \<le> c2" "1 \<le> l2" using Cons.prems(1) sets by auto
      have "0 < c2 * l2" using pos2 by simp
      then show ?thesis using True pos r sets pos2 by auto
    next
      case F2: False
      have *: "s + cnt * len < index" using False F2 by linarith
      have "\<exists>k. run_containing index (s + cnt * len) (p + cnt) sets = Some k \<and>
                pageSet_loop index (s + cnt * len) (p + cnt) sets = Inr k"
        using Cons.prems * tot by (intro Cons.IH) auto
      then show ?thesis using * r by auto
    qed
  qed
qed

text \<open>
  Where the runs cover the index, \<^verbatim>\<open>pageSet\<close> returns the set that the walk of the
  specification finds.
\<close>

lemma pageSet_run_containing:
  assumes "pageSets L = Inr sets" "1 \<le> pagesPerSet L" "0 \<le> pagesFirstSet L"
      and "0 \<le> index" "index < runs_total sets"
  shows "\<exists>k. run_containing index 0 0 sets = Some k \<and> pageSet L index = Inr k"
proof -
  have pos: "\<forall>(cnt, len) \<in> set sets. 1 \<le> cnt \<and> 1 \<le> len"
    using pageSets_runs_positive[OF assms(1-3)] by auto
  from pageSet_loop_run_containing[OF pos, of 0 index 0] assms(4,5)
  show ?thesis by (simp add: pageSet_def assms(1))
qed

lemma pageSets_four_pages: "pageSets four_pages = Inr [(1, 2)]"
  by (simp add: pageSets_def four_pages_def new_layout_def count_def
      pagesFirstSet_def pagesPerSet_def Let_def)

text \<open>
  C2. Four pages, two in the first set and three in every other set. Pages 2 and 3 are
  the leftover run that \<^verbatim>\<open>pageSets()\<close> loses (see C1), so that it returns the one run
  \<open>(1, 2)\<close>. For page 3 the walk over the runs finds no run that contains it, and
  \<^verbatim>\<open>pageSet(3)\<close> falls off the end of the loop and returns 0, the set of pages 0 and 1.
\<close>

theorem pageSet_of_lost_page:
  "count four_pages = 4 \<and> pageSets four_pages = Inr [(1, 2)]
   \<and> pageSet four_pages 3 = Inr 0 \<and> run_containing 3 0 0 [(1, 2)] = None"
  by (simp add: pageSet_def pageSets_four_pages) (simp add: four_pages_def new_layout_def count_def)

lemma pageSets_one_page: "pageSets one_page = Inr [(1, 1)]"
  by (simp add: pageSets_def one_page_def new_layout_def count_def
      pagesFirstSet_def pagesPerSet_def Let_def)

text \<open>
  C3, as the specification states it, fails: on a layout of one page, index 1 is out of
  range and \<^verbatim>\<open>pageSet(1)\<close> is 1, and index -1 is out of range and \<^verbatim>\<open>pageSet(-1)\<close>
  is -1.
\<close>

theorem pageSet_out_of_range_counterexample:
  "count one_page = 1 \<and> pageSet one_page 1 = Inr 1 \<and> pageSet one_page (- 1) = Inr (- 1)"
  by (simp add: pageSet_def pageSets_one_page) (simp add: one_page_def new_layout_def count_def)

text \<open>
  C3, amended. For every layout whose \<^verbatim>\<open>pagesPerSet\<close> is at least 1 and every index
  greater than the page count, \<^verbatim>\<open>pageSet(index)\<close> returns 0.
\<close>

theorem pageSet_beyond_count:
  assumes "1 \<le> pagesPerSet L" "count L < index"
  shows "pageSet L index = Inr 0"
proof -
  obtain sets where s: "pageSets L = Inr sets"
    using pageSets_returns[OF assms(1)] by blast
  have "prefix_below index 0 sets" using s assms by (rule pageSets_prefix_below)
  then show ?thesis by (simp add: pageSet_def s pageSet_loop_prefix_below)
qed

theorem pageSet_beyond_count_witness:
  "1 \<le> pagesPerSet one_page \<and> count one_page < 2 \<and> pageSet one_page 2 = Inr 0"
proof -
  have a: "1 \<le> pagesPerSet one_page"
    by (simp add: one_page_def new_layout_def pagesPerSet_def)
  have b: "count one_page < 2"
    by (simp add: one_page_def new_layout_def count_def)
  show ?thesis using a b pageSet_beyond_count[OF a b] by simp
qed

subsection \<open>\<^verbatim>\<open>displayPages\<close>\<close>

lemma set_lengths_Cons:
  "set_lengths ((cnt, len) # rest) = replicate (nat cnt) len @ set_lengths rest"
  by (simp add: set_lengths_def)

lemma length_set_lengths:
  "\<forall>(cnt, len) \<in> set sets. 0 \<le> cnt \<Longrightarrow> int (length (set_lengths sets)) = sum_list (map fst sets)"
  by (induction sets) (auto simp: set_lengths_def)

lemma displayPages_loop_spec:
  assumes "\<forall>(cnt, len) \<in> set sets. 0 \<le> cnt"
      and "p \<le> num" "num - p < sum_list (map fst sets)"
  shows "displayPages_loop num p s sets =
           Some (s + sum_list (take (nat (num - p)) (set_lengths sets)),
                 s + sum_list (take (nat (num - p)) (set_lengths sets)) + set_lengths sets ! nat (num - p))"
  using assms
proof (induction sets arbitrary: s p)
  case Nil
  then show ?case by simp
next
  case (Cons r sets)
  obtain cnt len where r: "r = (cnt, len)" by (cases r)
  have c0: "0 \<le> cnt" using Cons.prems(1) r by auto
  show ?case
  proof (cases "p + cnt \<le> num")
    case True
    have ih: "displayPages_loop num (p + cnt) (s + cnt * len) sets =
           Some (s + cnt * len + sum_list (take (nat (num - (p + cnt))) (set_lengths sets)),
                 s + cnt * len + sum_list (take (nat (num - (p + cnt))) (set_lengths sets)) + set_lengths sets ! nat (num - (p + cnt)))"
      using Cons.prems True r by (intro Cons.IH) auto
    have k: "nat (num - p) = nat cnt + nat (num - (p + cnt))" using True c0 by linarith
    have t: "take (nat (num - p)) (set_lengths ((cnt, len) # sets)) = replicate (nat cnt) len @ take (nat (num - (p + cnt))) (set_lengths sets)"
      by (simp add: set_lengths_Cons k)
    have n: "set_lengths ((cnt, len) # sets) ! nat (num - p) = set_lengths sets ! nat (num - (p + cnt))"
      by (simp add: set_lengths_Cons k nth_append)
    show ?thesis using True ih c0 by (simp add: r t n sum_list_replicate)
  next
    case False
    have k: "nat (num - p) < nat cnt" using False Cons.prems(2) by linarith
    have t: "take (nat (num - p)) (set_lengths ((cnt, len) # sets)) = replicate (nat (num - p)) len"
      using k by (auto simp add: set_lengths_Cons min_def)
    have n: "set_lengths ((cnt, len) # sets) ! nat (num - p) = len"
      using k by (simp add: set_lengths_Cons nth_append)
    show ?thesis using False Cons.prems(2) by (simp add: r t n sum_list_replicate Let_def)
  qed
qed

lemma py_slice_nonneg:
  "0 \<le> a \<Longrightarrow> 0 \<le> len \<Longrightarrow> py_slice xs a (a + len) = take (nat len) (drop (nat a) xs)"
  by (auto simp: py_slice_def slice_index_def Let_def min_def nat_add_distrib)

lemma set_lengths_nonneg:
  "\<forall>(cnt, len) \<in> set sets. 0 \<le> len \<Longrightarrow> \<forall>l \<in> set (set_lengths sets). 0 \<le> l"
  by (induction sets) (auto simp: set_lengths_def)

lemma set_parameters_currentPageSet [simp]:
  "pagesFirstSet (L\<lparr>currentPageSet := v\<rparr>) = pagesFirstSet L"
  "pagesPerSet (L\<lparr>currentPageSet := v\<rparr>) = pagesPerSet L"
  "count (L\<lparr>currentPageSet := v\<rparr>) = count L"
  by (simp_all add: pagesFirstSet_def pagesPerSet_def count_def split: layout_kind.split)

lemma set_parameters_continuousMode [simp]:
  "pagesFirstSet (L\<lparr>continuousMode := b\<rparr>) = pagesFirstSet L"
  "pagesPerSet (L\<lparr>continuousMode := b\<rparr>) = pagesPerSet L"
  "count (L\<lparr>continuousMode := b\<rparr>) = count L"
  by (simp_all add: pagesFirstSet_def pagesPerSet_def count_def split: layout_kind.split)

lemma pageSets_currentPageSet [simp]:
  "pageSets (L\<lparr>currentPageSet := v\<rparr>) = pageSets L"
  by (simp add: pageSets_unfold)

lemma pageSets_continuousMode [simp]:
  "pageSets (L\<lparr>continuousMode := b\<rparr>) = pageSets L"
  by (simp add: pageSets_unfold)

lemma displayPages_in_range:
  assumes runs: "\<forall>(cnt, len) \<in> set sets. 1 \<le> cnt \<and> 1 \<le> len"
      and sets: "pageSets L = Inr sets"
      and num: "0 \<le> num" "num < sum_list (map fst sets)"
  shows "\<exists>a b. displayPages_loop num 0 0 sets = Some (a, b)
               \<and> py_slice ps a b = pages_of_set ps sets (nat num)"
proof -
  let ?lens = "set_lengths sets"
  have c0: "\<forall>(cnt, len) \<in> set sets. 0 \<le> cnt" using runs by auto
  have l0: "\<forall>l \<in> set ?lens. 0 \<le> l"
    using runs by (intro set_lengths_nonneg) auto
  have len: "int (length ?lens) = sum_list (map fst sets)"
    using c0 by (rule length_set_lengths)
  have k: "nat num < length ?lens" using num len by linarith
  have a0: "0 \<le> sum_list (take (nat num) ?lens)"
    using l0 by (intro sum_list_nonneg) (auto dest: in_set_takeD)
  have b0: "0 \<le> ?lens ! nat num" using l0 k by auto
  have loop: "displayPages_loop num 0 0 sets =
      Some (sum_list (take (nat num) ?lens), sum_list (take (nat num) ?lens) + ?lens ! nat num)"
    using displayPages_loop_spec[OF c0, of 0 num 0] num by simp
  show ?thesis
    by (simp add: loop py_slice_nonneg[OF a0 b0] pages_of_set_def)
qed

text \<open>
  C4, as the specification states it, fails for a negative \<^verbatim>\<open>currentPageSet\<close>: on a
  layout of one page that is not in continuous mode, \<^verbatim>\<open>currentPageSet = -1\<close> is out of
  range, yet it is left as it is and no page is returned, where the last set holds the
  page.
\<close>

theorem displayPages_negative_set_counterexample:
  "pageSetCount (one_page\<lparr>continuousMode := False, currentPageSet := - 1\<rparr>) = Inr 1
   \<and> displayPages (one_page\<lparr>continuousMode := False, currentPageSet := - 1\<rparr>)
       = Inr ([], one_page\<lparr>continuousMode := False, currentPageSet := - 1\<rparr>)
   \<and> pages_of_set (pages one_page) [(1, 1)] 0 = [blank_page 0]"
proof -
  note s = pageSets_one_page
  have p: "pages one_page = [blank_page 0]" by (simp add: one_page_def new_layout_def)
  show ?thesis
    by (simp add: displayPages_def pageSetCount_def s Let_def py_slice_def slice_index_def p
        pages_of_set_def set_lengths_def)
qed

text \<open>
  C4, amended. With \<^verbatim>\<open>pagesPerSet\<close> at least 1 and \<^verbatim>\<open>pagesFirstSet\<close> not
  negative: \<^verbatim>\<open>displayPages()\<close> returns all pages in continuous mode; otherwise, for
  \<open>n\<close> page sets, it returns the pages of set \<^verbatim>\<open>currentPageSet\<close> when
  \<open>0 \<le> currentPageSet < n\<close>, and when \<open>currentPageSet \<ge> n > 0\<close> it sets
  \<^verbatim>\<open>currentPageSet\<close> to \<open>n - 1\<close> and returns the pages of that last set. (A negative
  \<^verbatim>\<open>currentPageSet\<close> is not clamped.)
\<close>

theorem displayPages_page_set:
  assumes "1 \<le> pagesPerSet L" "0 \<le> pagesFirstSet L"
      and "pageSets L = Inr sets" "pageSetCount L = Inr n"
  shows "(continuousMode L \<longrightarrow> displayPages L = Inr (pages L, L))
       \<and> (\<not> continuousMode L \<and> 0 \<le> currentPageSet L \<and> currentPageSet L < n \<longrightarrow>
            displayPages L = Inr (pages_of_set (pages L) sets (nat (currentPageSet L)), L))
       \<and> (\<not> continuousMode L \<and> 0 < n \<and> n \<le> currentPageSet L \<longrightarrow>
            displayPages L = Inr (pages_of_set (pages L) sets (nat (n - 1)),
                                  L\<lparr>currentPageSet := n - 1\<rparr>))"
proof -
  have runs: "\<forall>(cnt, len) \<in> set sets. 1 \<le> cnt \<and> 1 \<le> len"
    using pageSets_runs_positive[OF assms(3) assms(1,2)] by auto
  have n: "n = sum_list (map fst sets)"
    using assms(3,4) by (simp add: pageSetCount_def)
  have 1: "continuousMode L \<Longrightarrow> displayPages L = Inr (pages L, L)"
    by (simp add: displayPages_def)
  have 2: "displayPages L = Inr (pages_of_set (pages L) sets (nat (currentPageSet L)), L)"
    if h: "\<not> continuousMode L" "0 \<le> currentPageSet L" "currentPageSet L < n"
  proof -
    have c: "\<not> (currentPageSet L \<noteq> 0 \<and> n \<le> currentPageSet L)" using h by simp
    obtain a b where "displayPages_loop (currentPageSet L) 0 0 sets = Some (a, b)"
        "py_slice (pages L) a b = pages_of_set (pages L) sets (nat (currentPageSet L))"
      using h displayPages_in_range[OF runs assms(3), of "currentPageSet L" "pages L"] n
      by auto
    then show ?thesis
      using h c by (simp add: displayPages_def assms(3,4) Let_def)
  qed
  have 3: "displayPages L = Inr (pages_of_set (pages L) sets (nat (n - 1)), L\<lparr>currentPageSet := n - 1\<rparr>)"
    if h: "\<not> continuousMode L" "0 < n" "n \<le> currentPageSet L"
  proof -
    have c: "currentPageSet L \<noteq> 0 \<and> n \<le> currentPageSet L" using h by simp
    obtain a b where "displayPages_loop (n - 1) 0 0 sets = Some (a, b)"
        "py_slice (pages L) a b = pages_of_set (pages L) sets (nat (n - 1))"
      using h displayPages_in_range[OF runs assms(3), of "n - 1" "pages L"] n
      by auto
    then show ?thesis
      using h c by (simp add: displayPages_def assms(3,4) Let_def)
  qed
  show ?thesis using 1 2 3 by blast
qed

lemma pageSets_seven_pages: "pageSets seven_pages = Inr [(1, 1), (2, 3)]"
  by (simp add: pageSets_def seven_pages_def new_layout_def count_def
      pagesFirstSet_def pagesPerSet_def Let_def)

theorem displayPages_page_set_witness:
  "1 \<le> pagesPerSet seven_pages \<and> 0 \<le> pagesFirstSet seven_pages
   \<and> pageSets seven_pages = Inr [(1, 1), (2, 3)] \<and> pageSetCount seven_pages = Inr 3
   \<and> \<not> continuousMode seven_pages \<and> currentPageSet seven_pages = 5
   \<and> displayPages seven_pages = Inr (map blank_page [4, 5, 6], seven_pages\<lparr>currentPageSet := 2\<rparr>)"
proof -
  have a: "1 \<le> pagesPerSet seven_pages" "0 \<le> pagesFirstSet seven_pages"
    by (simp_all add: seven_pages_def new_layout_def pagesPerSet_def pagesFirstSet_def)
  have c: "pageSetCount seven_pages = Inr 3"
    by (simp add: pageSetCount_def pageSets_seven_pages)
  have m: "\<not> continuousMode seven_pages" "currentPageSet seven_pages = 5"
    by (simp_all add: seven_pages_def new_layout_def)
  have p: "pages_of_set (pages seven_pages) [(1, 1), (2, 3)] (nat (3 - 1)) = map blank_page [4, 5, 6]"
    by (simp add: pages_of_set_def set_lengths_def seven_pages_def new_layout_def numeral_2_eq_2)
  show ?thesis
    using displayPages_page_set[OF a pageSets_seven_pages c] a c m p pageSets_seven_pages
    by simp
qed


section \<open>The grid of \<^verbatim>\<open>RowPageLayout\<close>\<close>

subsection \<open>Ranges, columns and rows\<close>



lemma less_ceil_div_iff:
  "1 \<le> (s::nat) \<Longrightarrow> k < (d + s - 1) div s \<longleftrightarrow> k * s < d"
proof -
  assume s: "1 \<le> s"
  have "k < (d + s - 1) div s \<longleftrightarrow> Suc k \<le> (d + s - 1) div s" by auto
  also have "\<dots> \<longleftrightarrow> Suc k * s \<le> d + s - 1"
    using s by (simp add: less_eq_div_iff_mult_less_eq)
  also have "\<dots> \<longleftrightarrow> k * s < d" using s by auto
  finally show ?thesis .
qed

lemma length_py_range [simp]:
  "length (py_range a b s) = (b - a + s - 1) div s"
  by (simp add: py_range_def)

lemma nth_py_range:
  "k < (b - a + s - 1) div s \<Longrightarrow> py_range a b s ! k = a + k * s"
  by (simp add: py_range_def)

lemma set_py_range:
  assumes "1 \<le> s"
  shows "set (py_range a b s) = {a + k * s | k. a + k * s < b}"
proof -
  have iff: "k < (b - a + s - 1) div s \<longleftrightarrow> a + k * s < b" for k
    using less_ceil_div_iff[OF assms, of k "b - a"] by auto
  have "set (py_range a b s) = (\<lambda>k. a + k * s) ` {k. k < (b - a + s - 1) div s}"
    unfolding py_range_def by (simp only: set_map set_upt atLeast0LessThan lessThan_def)
  also have "\<dots> = (\<lambda>k. a + k * s) ` {k. a + k * s < b}"
    using iff by simp
  also have "\<dots> = {a + k * s | k. a + k * s < b}" by blast
  finally show ?thesis .
qed

lemma set_py_range_column:
  assumes "col < cols"
  shows "set (py_range col m cols) = {j. j < m \<and> j mod cols = col}"
proof -
  have s: "1 \<le> cols" using assms by simp
  show ?thesis
  proof (intro set_eqI iffI)
    fix j assume "j \<in> set (py_range col m cols)"
    then obtain k where "j = col + k * cols" "col + k * cols < m"
      unfolding set_py_range[OF s] by blast
    then show "j \<in> {j. j < m \<and> j mod cols = col}" using assms by simp
  next
    fix j assume "j \<in> {j. j < m \<and> j mod cols = col}"
    then have j: "j < m" "j mod cols = col" by auto
    have "j = col + (j div cols) * cols" using j(2) div_mult_mod_eq[of j cols] by simp
    then have "\<exists>k. j = col + k * cols \<and> col + k * cols < m" using j(1) by metis
    then show "j \<in> set (py_range col m cols)" unfolding set_py_range[OF s] by blast
  qed
qed

lemma py_max_Max: "xs \<noteq> [] \<Longrightarrow> py_max xs = Inr (Max (set xs))"
proof (cases xs)
  case Nil
  then show "xs \<noteq> [] \<Longrightarrow> ?thesis" by simp
next
  case (Cons v rest)
  show ?thesis unfolding Cons py_max_def using Max.set_eq_fold[of v rest] by simp
qed



lemma set_somes: "set [p. Some p \<leftarrow> xs] = {p. Some p \<in> set xs}"
  by (induction xs) (auto split: option.splits)

lemma nth_padded:
  "j < pad + length ps \<Longrightarrow>
   (replicate pad None @ map Some ps) ! j = (if j < pad then None else Some (ps ! (j - pad)))"
  by (simp add: nth_append)

lemma column_widths_set:
  assumes "col < cols"
  shows "set (map f [p. Some p \<leftarrow> slice_from_step (replicate pad None @ map Some ps) col cols])
       = set [f (ps ! i). i \<leftarrow> [0..<length ps], (i + pad) mod cols = col]"
  (is "?l = ?r")
proof -
  let ?pgs = "replicate pad None @ map Some ps"
  let ?m = "pad + length ps"
  have len: "length ?pgs = ?m" by simp
  have A: "set (slice_from_step ?pgs col cols) = (\<lambda>j. ?pgs ! j) ` {j. j < ?m \<and> j mod cols = col}"
    unfolding slice_from_step_def set_map set_py_range_column[OF assms] len ..
  have B: "?l = f ` {p. Some p \<in> set (slice_from_step ?pgs col cols)}"
    by (simp only: set_map set_somes)
  have l: "?l = {f p | p j. j < ?m \<and> j mod cols = col \<and> ?pgs ! j = Some p}"
    unfolding B A by force
  have r: "?r = {f (ps ! i) | i. i < length ps \<and> (i + pad) mod cols = col}"
    by auto
  show ?thesis unfolding l r
  proof (intro set_eqI iffI)
    fix v assume "v \<in> {f p | p j. j < ?m \<and> j mod cols = col \<and> ?pgs ! j = Some p}"
    then obtain p j where j: "v = f p" "j < ?m" "j mod cols = col" "?pgs ! j = Some p" by blast
    have "pad \<le> j \<and> p = ps ! (j - pad)" using j(2,4) nth_padded[of j pad ps] by (auto split: if_splits)
    then have "v = f (ps ! (j - pad))" "j - pad < length ps" "(j - pad + pad) mod cols = col"
      using j by auto
    then show "v \<in> {f (ps ! i) | i. i < length ps \<and> (i + pad) mod cols = col}" by blast
  next
    fix v assume "v \<in> {f (ps ! i) | i. i < length ps \<and> (i + pad) mod cols = col}"
    then obtain i where i: "v = f (ps ! i)" "i < length ps" "(i + pad) mod cols = col" by blast
    have "?pgs ! (i + pad) = Some (ps ! i)" using i(2) nth_padded[of "i + pad" pad ps] by simp
    then show "v \<in> {f p | p j. j < ?m \<and> j mod cols = col \<and> ?pgs ! j = Some p}"
      using i by (intro CollectI exI[of _ "ps ! i"] exI[of _ "i + pad"]) auto
  qed
qed

lemma column_nonempty:
  assumes "grid_ok ps pad cols" "col < cols"
  shows "[f (ps ! i). i \<leftarrow> [0..<length ps], (i + pad) mod cols = col] \<noteq> []"
    (is "?xs \<noteq> []")
proof -
  have ok: "pad < cols" "cols \<le> length ps" using assms(1) by (auto simp: grid_ok_def)
  define i where "i = (if pad \<le> col then col - pad else col + cols - pad)"
  have i: "i < length ps \<and> (i + pad) mod cols = col"
  proof (cases "pad \<le> col")
    case True
    then have "i + pad = col" "i < length ps" using ok assms(2) by (auto simp: i_def)
    then show ?thesis using assms(2) by simp
  next
    case False
    then have "i + pad = col + cols" "i < length ps" using ok assms(2) by (auto simp: i_def)
    then show ?thesis using assms(2) by simp
  qed
  have "f (ps ! i) \<in> set ?xs" using i by auto
  then have "set ?xs \<noteq> {}" by auto
  then show ?thesis unfolding set_empty .
qed

lemma comprehension_map_nth:
  "[f (ps ! i). i \<leftarrow> [0..<length ps], P i] = [map f ps ! i. i \<leftarrow> [0..<length (map f ps)], P i]"
  by (auto intro!: arg_cong[where f = concat] map_cong)

lemma column_width:
  assumes "grid_ok ps pad cols" "col < cols"
  shows "py_max (map page_width [p. Some p \<leftarrow> slice_from_step (replicate pad None @ map Some ps) col cols])
       = Inr (col_width_of (map page_width ps) pad cols col)"
proof -
  let ?xs = "map page_width [p. Some p \<leftarrow> slice_from_step (replicate pad None @ map Some ps) col cols]"
  have s: "set ?xs = set [page_width (ps ! i). i \<leftarrow> [0..<length ps], (i + pad) mod cols = col]"
    using assms(2) by (rule column_widths_set)
  have "set ?xs \<noteq> {}"
    unfolding s set_empty using assms by (rule column_nonempty)
  then have ne: "?xs \<noteq> []" unfolding set_empty .
  show ?thesis
    unfolding py_max_Max[OF ne] s col_width_of_def
    using comprehension_map_nth[where f = page_width and ps = ps and P = "\<lambda>i. (i + pad) mod cols = col"] by simp
qed



lemma set_take_drop:
  "set (take c (drop a xs)) = {xs ! j | j. a \<le> j \<and> j < a + c \<and> j < length xs}"
proof (intro set_eqI iffI)
  fix v assume "v \<in> set (take c (drop a xs))"
  then obtain k where k: "k < length (take c (drop a xs))" "take c (drop a xs) ! k = v"
    by (auto simp: in_set_conv_nth)
  then have "v = xs ! (a + k)" "a + k < a + c" "a + k < length xs" by auto
  then show "v \<in> {xs ! j | j. a \<le> j \<and> j < a + c \<and> j < length xs}"
    by (intro CollectI exI[of _ "a + k"]) auto
next
  fix v assume "v \<in> {xs ! j | j. a \<le> j \<and> j < a + c \<and> j < length xs}"
  then obtain j where j: "v = xs ! j" "a \<le> j" "j < a + c" "j < length xs" by blast
  then have "j - a < length (take c (drop a xs))" "take c (drop a xs) ! (j - a) = v" by auto
  then show "v \<in> set (take c (drop a xs))" by (metis nth_mem)
qed

lemma div_eq_iff_range:
  "1 \<le> (c::nat) \<Longrightarrow> (j div c = r) = (r * c \<le> j \<and> j < r * c + c)"
proof
  assume c: "1 \<le> c" and "j div c = r"
  have m: "j mod c < c" using c by simp
  have d: "r * c + j mod c = j" using \<open>j div c = r\<close> by auto
  show "r * c \<le> j \<and> j < r * c + c"
    using m d by linarith
next
  assume c: "1 \<le> c" and "r * c \<le> j \<and> j < r * c + c"
  then show "j div c = r" by (intro div_nat_eqI) (auto simp: mult.commute)
qed

lemma row_heights_set:
  assumes "1 \<le> cols"
  shows "set (map f [p. Some p \<leftarrow> take cols (drop (r * cols) (replicate pad None @ map Some ps))])
       = set [f (ps ! i). i \<leftarrow> [0..<length ps], (i + pad) div cols = r]"
  (is "?l = ?r")
proof -
  let ?pgs = "replicate pad None @ map Some ps"
  let ?m = "pad + length ps"
  have len: "length ?pgs = ?m" by simp
  have l: "?l = {f p | p j. j < ?m \<and> j div cols = r \<and> ?pgs ! j = Some p}"
    unfolding set_map set_somes set_take_drop len div_eq_iff_range[OF assms]
    by force
  have r: "?r = {f (ps ! i) | i. i < length ps \<and> (i + pad) div cols = r}"
    by auto
  show ?thesis unfolding l r
  proof (intro set_eqI iffI)
    fix v assume "v \<in> {f p | p j. j < ?m \<and> j div cols = r \<and> ?pgs ! j = Some p}"
    then obtain p j where j: "v = f p" "j < ?m" "j div cols = r" "?pgs ! j = Some p" by blast
    have "pad \<le> j \<and> p = ps ! (j - pad)" using j(2,4) nth_padded[of j pad ps] by (auto split: if_splits)
    then have "v = f (ps ! (j - pad))" "j - pad < length ps" "(j - pad + pad) div cols = r"
      using j by auto
    then show "v \<in> {f (ps ! i) | i. i < length ps \<and> (i + pad) div cols = r}" by blast
  next
    fix v assume "v \<in> {f (ps ! i) | i. i < length ps \<and> (i + pad) div cols = r}"
    then obtain i where i: "v = f (ps ! i)" "i < length ps" "(i + pad) div cols = r" by blast
    have "?pgs ! (i + pad) = Some (ps ! i)" using i(2) nth_padded[of "i + pad" pad ps] by simp
    then show "v \<in> {f p | p j. j < ?m \<and> j div cols = r \<and> ?pgs ! j = Some p}"
      using i by (intro CollectI exI[of _ "ps ! i"] exI[of _ "i + pad"]) auto
  qed
qed

lemma row_nonempty:
  assumes "grid_ok ps pad cols" "r < (pad + length ps + cols - 1) div cols"
  shows "[f (ps ! i). i \<leftarrow> [0..<length ps], (i + pad) div cols = r] \<noteq> []"
    (is "?xs \<noteq> []")
proof -
  have ok: "1 \<le> cols" "pad < cols" "cols \<le> length ps" using assms(1) by (auto simp: grid_ok_def)
  have rm: "r * cols < pad + length ps" using assms(2) less_ceil_div_iff[OF ok(1)] by blast
  define i where "i = (if r = 0 then 0 else r * cols - pad)"
  have i: "i < length ps \<and> (i + pad) div cols = r"
  proof (cases "r = 0")
    case True
    then show ?thesis using ok by (auto simp: i_def)
  next
    case False
    then have "cols \<le> r * cols" by simp
    then have "pad \<le> r * cols" using ok(2) by linarith
    then have "i + pad = r * cols" "i < length ps" using rm False by (auto simp: i_def)
    then show ?thesis using ok by simp
  qed
  have "f (ps ! i) \<in> set ?xs" using i by auto
  then have "set ?xs \<noteq> {}" by auto
  then show ?thesis unfolding set_empty .
qed

lemma row_height:
  assumes "grid_ok ps pad cols" "r < (pad + length ps + cols - 1) div cols"
  shows "py_max (map page_height [p. Some p \<leftarrow> take cols (drop (r * cols) (replicate pad None @ map Some ps))])
       = Inr (row_height_of (map page_height ps) pad cols r)"
proof -
  let ?xs = "map page_height [p. Some p \<leftarrow> take cols (drop (r * cols) (replicate pad None @ map Some ps))]"
  have c: "1 \<le> cols" using assms(1) by (simp add: grid_ok_def)
  have s: "set ?xs = set [page_height (ps ! i). i \<leftarrow> [0..<length ps], (i + pad) div cols = r]"
    using c by (rule row_heights_set)
  have "set ?xs \<noteq> {}"
    unfolding s set_empty using assms by (rule row_nonempty)
  then have ne: "?xs \<noteq> []" unfolding set_empty .
  show ?thesis
    unfolding py_max_Max[OF ne] s row_height_of_def
    using comprehension_map_nth[where f = page_height and ps = ps and P = "\<lambda>i. (i + pad) div cols = r"] by simp
qed



lemma length_running_offsets [simp]: "length (running_offsets ext sp start ks) = length ks"
  by (induction ks arbitrary: start) auto

lemma running_offsets_upt:
  "k < b - a \<Longrightarrow>
   running_offsets ext sp start [a..<b] ! k = start + sum_list (map (\<lambda>j. ext j + sp) [a..<a + k])"
proof (induction k arbitrary: a start)
  case 0
  then show ?case by (simp add: upt_conv_Cons)
next
  case (Suc k)
  then have ab: "a < b" "k < b - Suc a" by auto
  have "running_offsets ext sp start [a..<b] ! Suc k
      = running_offsets ext sp (start + ext a + sp) [Suc a..<b] ! k"
    using ab by (simp add: upt_conv_Cons)
  also have "\<dots> = start + ext a + sp + sum_list (map (\<lambda>j. ext j + sp) [Suc a..<Suc a + k])"
    using Suc.IH[OF ab(2)] by simp
  also have "\<dots> = start + sum_list (map (\<lambda>j. ext j + sp) (a # [Suc a..<Suc a + k]))"
    by simp
  also have "a # [Suc a..<Suc a + k] = [a..<a + Suc k]"
    by (simp add: upt_conv_Cons)
  finally show ?case .
qed

lemma columns_loop_result:
  assumes "\<And>col. col \<in> set cs \<Longrightarrow>
             py_max (map page_width [p. Some p \<leftarrow> slice_from_step pgs col cols]) = Inr (W col)"
  shows "columns_loop sp pgs cols offset cs = Inr (map W cs, running_offsets W sp offset cs)"
  using assms by (induction cs arbitrary: offset) simp_all

lemma rows_loop_result:
  assumes "\<And>r. r \<in> set rs \<Longrightarrow> py_max (map page_height [p. Some p \<leftarrow> rowf r]) = Inr (H r)"
  shows "rows_loop ws os sp ytop (map rowf rs)
       = Inr (map (\<lambda>(r, t). place_row ws os t (H r) (rowf r)) (zip rs (running_offsets H sp ytop rs)))"
  using assms by (induction rs arbitrary: ytop) simp_all

lemma zip_running_offsets_upt:
  "zip [0..<R] (running_offsets H sp start [0..<R])
     = map (\<lambda>r. (r, start + sum_list (map (\<lambda>q. H q + sp) [0..<r]))) [0..<R]"
proof (rule nth_equalityI)
  show "length (zip [0..<R] (running_offsets H sp start [0..<R]))
      = length (map (\<lambda>r. (r, start + sum_list (map (\<lambda>q. H q + sp) [0..<r]))) [0..<R])"
    by simp
next
  fix r assume "r < length (zip [0..<R] (running_offsets H sp start [0..<R]))"
  then have r: "r < R" by simp
  then have "running_offsets H sp start [0..<R] ! r = start + sum_list (map (\<lambda>q. H q + sp) [0..<0 + r])"
    by (intro running_offsets_upt) simp
  then show "zip [0..<R] (running_offsets H sp start [0..<R]) ! r
      = map (\<lambda>r. (r, start + sum_list (map (\<lambda>q. H q + sp) [0..<r]))) [0..<R] ! r"
    using r by simp
qed

text \<open>The pages of all rows, in order.\<close>

lemma enumerate_row_map:
  assumes "1 \<le> cols" "r * cols \<le> length xs"
  shows "map (\<lambda>(k, v). F r k v) (enumerate 0 (take cols (drop (r * cols) xs)))
       = map (\<lambda>j. F (j div cols) (j mod cols) (xs ! j)) [r * cols..<min (r * cols + cols) (length xs)]"
proof (rule nth_equalityI)
  show "length (map (\<lambda>(k, v). F r k v) (enumerate 0 (take cols (drop (r * cols) xs))))
      = length (map (\<lambda>j. F (j div cols) (j mod cols) (xs ! j)) [r * cols..<min (r * cols + cols) (length xs)])"
    using assms by auto
next
  fix k assume "k < length (map (\<lambda>(k, v). F r k v) (enumerate 0 (take cols (drop (r * cols) xs))))"
  then have k: "k < cols" "r * cols + k < length xs" by auto
  have d: "(r * cols + k) div cols = r" "(r * cols + k) mod cols = k" using k(1) by auto
  show "map (\<lambda>(k, v). F r k v) (enumerate 0 (take cols (drop (r * cols) xs))) ! k
      = map (\<lambda>j. F (j div cols) (j mod cols) (xs ! j)) [r * cols..<min (r * cols + cols) (length xs)] ! k"
    using k d by (simp add: nth_enumerate_eq)
qed

lemma concat_rows:
  assumes "1 \<le> cols" "R \<le> (length xs + cols - 1) div cols"
  shows "concat (map (\<lambda>r. map (\<lambda>(k, v). F r k v) (enumerate 0 (take cols (drop (r * cols) xs)))) [0..<R])
       = map (\<lambda>j. F (j div cols) (j mod cols) (xs ! j)) [0..<min (R * cols) (length xs)]"
  using assms(2)
proof (induction R)
  case 0
  then show ?case by simp
next
  case (Suc R)
  have "R < (length xs + cols - 1) div cols" using Suc.prems by simp
  then have lt: "R * cols < length xs" using less_ceil_div_iff[OF assms(1)] by blast
  then have m: "min (R * cols) (length xs) = R * cols" by simp
  have ih: "concat (map (\<lambda>r. map (\<lambda>(k, v). F r k v) (enumerate 0 (take cols (drop (r * cols) xs)))) [0..<R])
       = map (\<lambda>j. F (j div cols) (j mod cols) (xs ! j)) [0..<R * cols]"
    using Suc.IH Suc.prems m by simp
  have row: "map (\<lambda>(k, v). F R k v) (enumerate 0 (take cols (drop (R * cols) xs)))
       = map (\<lambda>j. F (j div cols) (j mod cols) (xs ! j)) [R * cols..<min (R * cols + cols) (length xs)]"
    using assms(1) lt by (intro enumerate_row_map) auto
  have split: "[0..<min (Suc R * cols) (length xs)] = [0..<R * cols] @ [R * cols..<min (R * cols + cols) (length xs)]"
  proof -
    let ?M = "min (Suc R * cols) (length xs)"
    have "R * cols \<le> ?M" using lt by simp
    then have "[0..<R * cols + (?M - R * cols)] = [0..<R * cols] @ [R * cols..<R * cols + (?M - R * cols)]"
      by (intro upt_add_eq_append) simp
    moreover have "R * cols + (?M - R * cols) = ?M" using \<open>R * cols \<le> ?M\<close> by simp
    moreover have "?M = min (R * cols + cols) (length xs)" by (simp add: add.commute)
    ultimately show ?thesis by simp
  qed
  show ?case
    unfolding split by (simp add: ih row)
qed

lemma concat_map_single: "concat (map (\<lambda>i. [g i]) xs) = map g xs"
  by (induction xs) auto

lemma somes_None: "[p. Some p \<leftarrow> map (\<lambda>j. None) js] = []"
  by (induction js) auto

lemma somes_Some: "[p. Some p \<leftarrow> map (\<lambda>j. Some (g j)) js] = map g js"
  by (induction js) auto

lemma somes_padded:
  "[p. Some p \<leftarrow> map (\<lambda>j. case (replicate pad None @ map Some ps) ! j of
                                 None \<Rightarrow> None | Some p \<Rightarrow> Some (f j p)) [0..<pad + length ps]]
     = map (\<lambda>i. f (i + pad) (ps ! i)) [0..<length ps]"
proof -
  let ?h = "\<lambda>j. case (replicate pad None @ map Some ps) ! j of None \<Rightarrow> None | Some p \<Rightarrow> Some (f j p)"
  have "[0..<pad + length ps] = [0..<pad] @ [pad..<pad + length ps]"
    by (intro upt_add_eq_append) simp
  moreover have "map (\<lambda>i. i + pad) [0..<length ps] = [pad..<length ps + pad]"
    by (rule map_add_upt)
  moreover have "length ps + pad = pad + length ps" by simp
  ultimately have split: "[0..<pad + length ps] = [0..<pad] @ map (\<lambda>i. i + pad) [0..<length ps]"
    by metis
  have a: "map ?h [0..<pad] = map (\<lambda>j. None) [0..<pad]"
    by (rule map_cong) (auto simp: nth_append)
  have b: "map ?h (map (\<lambda>i. i + pad) [0..<length ps]) = map (\<lambda>i. Some (f (i + pad) (ps ! i))) [0..<length ps]"
    by (auto simp: nth_append)
  show ?thesis
    unfolding split map_append a b by (simp add: o_def concat_map_single)
qed



lemma grid_ok_layout:
  assumes "1 \<le> pagesPerRow L" "pages L \<noteq> []"
  shows "grid_ok (pages L) (grid_pad L) (grid_cols L)"
proof (cases "int (length (pages L)) > pagesPerRow L")
  case True
  have "(pagesPerRow L - pagesFirstRow L) mod pagesPerRow L < pagesPerRow L"
    using assms(1) by simp
  then show ?thesis using True assms(1) by (auto simp: grid_ok_def grid_pad_def grid_cols_def)
next
  case False
  then show ?thesis using assms(2) by (auto simp: grid_ok_def grid_pad_def grid_cols_def Suc_le_eq)
qed

lemma row_pages_grid:
  assumes "1 \<le> pagesPerRow L"
  shows "row_pages L = Inr (replicate (grid_pad L) None @ map Some (pages L), int (grid_cols L))"
  using assms by (auto simp: row_pages_def grid_pad_def grid_cols_def)

lemma ceil_div_covers:
  assumes "1 \<le> (cols::nat)"
  shows "min ((m + cols - 1) div cols * cols) m = m"
proof -
  have "\<not> (m + cols - 1) div cols * cols < m"
    using less_ceil_div_iff[OF assms, of "(m + cols - 1) div cols" m] by simp
  then show ?thesis by simp
qed

lemma grid_rows_placed:
  assumes ok: "grid_ok ps pad cols"
  shows
   "\<exists>col_widths col_offsets rows.
      columns_loop sp (replicate pad None @ map Some ps) cols left [0..<cols]
        = Inr (col_widths, col_offsets)
    \<and> rows_loop col_widths col_offsets sp ytop
          (map (\<lambda>i. take cols (drop i (replicate pad None @ map Some ps)))
               (py_range 0 (length (replicate pad None @ map Some ps)) cols)) = Inr rows
    \<and> [p. Some p \<leftarrow> concat rows]
        = map (\<lambda>i. (ps ! i)\<lparr>
              page_x := left
                 + sum_list (map (\<lambda>k. col_width_of (map page_width ps) pad cols k + sp) [0..<(i + pad) mod cols])
                 + (col_width_of (map page_width ps) pad cols ((i + pad) mod cols) - page_width (ps ! i)) div 2,
              page_y := ytop
                 + sum_list (map (\<lambda>q. row_height_of (map page_height ps) pad cols q + sp) [0..<(i + pad) div cols])
                 + (row_height_of (map page_height ps) pad cols ((i + pad) div cols) - page_height (ps ! i)) div 2\<rparr>)
            [0..<length ps]"
proof -
  let ?pgs = "replicate pad None @ map Some ps"
  let ?m = "pad + length ps"
  let ?W = "col_width_of (map page_width ps) pad cols"
  let ?H = "row_height_of (map page_height ps) pad cols"
  let ?R = "(?m + cols - 1) div cols"
  let ?ws = "map ?W [0..<cols]"
  let ?os = "running_offsets ?W sp left [0..<cols]"
  let ?T = "\<lambda>r. ytop + sum_list (map (\<lambda>q. ?H q + sp) [0..<r])"
  let ?rowf = "\<lambda>r. take cols (drop (r * cols) ?pgs)"
  let ?F = "\<lambda>r k v. case v of None \<Rightarrow> None
              | Some p \<Rightarrow> Some (p\<lparr>page_x := ?os ! k + (?ws ! k - page_width p) div 2,
                                   page_y := ?T r + (?H r - page_height p) div 2\<rparr>)"
  have c1: "1 \<le> cols" using ok by (simp add: grid_ok_def)
  have len: "length ?pgs = ?m" by simp
  have cols: "columns_loop sp ?pgs cols left [0..<cols] = Inr (?ws, ?os)"
  proof (rule columns_loop_result)
    fix col assume "col \<in> set [0..<cols]"
    then have "col < cols" by simp
    then show "py_max (map page_width [p. Some p \<leftarrow> slice_from_step ?pgs col cols]) = Inr (?W col)"
      by (rule column_width[OF ok])
  qed
  have rows_list: "map (\<lambda>i. take cols (drop i ?pgs)) (py_range 0 (length ?pgs) cols) = map ?rowf [0..<?R]"
    unfolding len py_range_def by simp
  have rows: "rows_loop ?ws ?os sp ytop (map ?rowf [0..<?R])
       = Inr (map (\<lambda>(r, t). place_row ?ws ?os t (?H r) (?rowf r)) (zip [0..<?R] (running_offsets ?H sp ytop [0..<?R])))"
  proof (rule rows_loop_result)
    fix r assume "r \<in> set [0..<?R]"
    then have "r < ?R" by simp
    then show "py_max (map page_height [p. Some p \<leftarrow> ?rowf r]) = Inr (?H r)"
      by (rule row_height[OF ok])
  qed
  have placed: "map (\<lambda>(r, t). place_row ?ws ?os t (?H r) (?rowf r)) (zip [0..<?R] (running_offsets ?H sp ytop [0..<?R]))
       = map (\<lambda>r. map (\<lambda>(k, v). ?F r k v) (enumerate 0 (?rowf r))) [0..<?R]"
    unfolding zip_running_offsets_upt by (simp add: place_row_def o_def)
  have flat: "concat (map (\<lambda>r. map (\<lambda>(k, v). ?F r k v) (enumerate 0 (?rowf r))) [0..<?R])
       = map (\<lambda>j. ?F (j div cols) (j mod cols) (?pgs ! j)) [0..<?m]"
    using concat_rows[OF c1, of ?R ?pgs ?F] ceil_div_covers[OF c1, of ?m] by (simp only: len)
  have somes: "[p. Some p \<leftarrow> map (\<lambda>j. ?F (j div cols) (j mod cols) (?pgs ! j)) [0..<?m]]
       = map (\<lambda>i. (ps ! i)\<lparr>page_x := ?os ! ((i + pad) mod cols) + (?ws ! ((i + pad) mod cols) - page_width (ps ! i)) div 2,
                               page_y := ?T ((i + pad) div cols) + (?H ((i + pad) div cols) - page_height (ps ! i)) div 2\<rparr>)
             [0..<length ps]"
    by (rule somes_padded[where f = "\<lambda>j p. p\<lparr>page_x := ?os ! (j mod cols) + (?ws ! (j mod cols) - page_width p) div 2,
                               page_y := ?T (j div cols) + (?H (j div cols) - page_height p) div 2\<rparr>"])
  have offs: "?os ! k = left + sum_list (map (\<lambda>q. ?W q + sp) [0..<k])" "?ws ! k = ?W k" if "k < cols" for k
    using that running_offsets_upt[of k cols 0 ?W sp left] by simp_all
  have final: "map (\<lambda>i. (ps ! i)\<lparr>page_x := ?os ! ((i + pad) mod cols) + (?ws ! ((i + pad) mod cols) - page_width (ps ! i)) div 2,
                               page_y := ?T ((i + pad) div cols) + (?H ((i + pad) div cols) - page_height (ps ! i)) div 2\<rparr>)
             [0..<length ps]
       = map (\<lambda>i. (ps ! i)\<lparr>
              page_x := left + sum_list (map (\<lambda>k. ?W k + sp) [0..<(i + pad) mod cols])
                 + (?W ((i + pad) mod cols) - page_width (ps ! i)) div 2,
              page_y := ?T ((i + pad) div cols) + (?H ((i + pad) div cols) - page_height (ps ! i)) div 2\<rparr>)
            [0..<length ps]"
    using c1 by (intro map_cong refl) (simp add: offs)
  have "rows_loop ?ws ?os sp ytop
          (map (\<lambda>i. take cols (drop i ?pgs)) (py_range 0 (length ?pgs) cols))
        = Inr (map (\<lambda>r. map (\<lambda>(k, v). ?F r k v) (enumerate 0 (?rowf r))) [0..<?R])"
    unfolding rows_list rows placed ..
  moreover have "[p. Some p \<leftarrow> concat (map (\<lambda>r. map (\<lambda>(k, v). ?F r k v) (enumerate 0 (?rowf r))) [0..<?R])]
        = map (\<lambda>i. (ps ! i)\<lparr>
              page_x := left + sum_list (map (\<lambda>k. ?W k + sp) [0..<(i + pad) mod cols])
                 + (?W ((i + pad) mod cols) - page_width (ps ! i)) div 2,
              page_y := ?T ((i + pad) div cols) + (?H ((i + pad) div cols) - page_height (ps ! i)) div 2\<rparr>)
            [0..<length ps]"
    unfolding flat somes final ..
  ultimately show ?thesis using cols by blast
qed

lemma updatePagePositions_row_grid:
  assumes "1 \<le> pagesPerRow L"
  shows "updatePagePositions_row L = Inr (L\<lparr>pages := grid_positions L\<rparr>)"
proof (cases "pages L = []")
  case True
  then show ?thesis
    using assms
    by (simp add: updatePagePositions_row_def row_pages_def rows_of_def grid_positions_def py_range_def)
next
  case False
  have ok: "grid_ok (pages L) (grid_pad L) (grid_cols L)"
    using assms False by (rule grid_ok_layout)
  then have c: "1 \<le> grid_cols L" by (simp add: grid_ok_def)
  obtain col_widths col_offsets rows where
    g: "columns_loop (spacing L) (replicate (grid_pad L) None @ map Some (pages L)) (grid_cols L)
          (m_left (margins L)) [0..<grid_cols L] = Inr (col_widths, col_offsets)"
       "rows_loop col_widths col_offsets (spacing L) (m_top (margins L))
          (map (\<lambda>i. take (grid_cols L) (drop i (replicate (grid_pad L) None @ map Some (pages L))))
               (py_range 0 (length (replicate (grid_pad L) None @ map Some (pages L))) (grid_cols L)))
          = Inr rows"
       "[p. Some p \<leftarrow> concat rows] = grid_positions L"
    using grid_rows_placed[OF ok, of "spacing L" "m_left (margins L)" "m_top (margins L)"]
    unfolding grid_positions_def grid_x_def grid_y_def Let_def by blast
  show ?thesis
    unfolding updatePagePositions_row_def row_pages_grid[OF assms] rows_of_def
    using c g by simp
qed


subsection \<open>\<^verbatim>\<open>RowPageLayout.updatePagePositions\<close>\<close>

lemma py_range_0_9_3: "py_range 0 9 3 = [0, 3, 6]"
  by (simp add: py_range_def upt_rec)

lemma rows_of_seven:
  assumes "pages L = [p0, p1, p2, p3, p4, p5, p6]" "pagesPerRow L = 3" "pagesFirstRow L = 1"
  shows "row_pages L = Inr ([None, None, Some p0, Some p1, Some p2, Some p3, Some p4, Some p5, Some p6], 3)"
    and "rows_of [None, None, Some p0, Some p1, Some p2, Some p3, Some p4, Some p5, Some p6] 3
           = [[None, None, Some p0], [Some p1, Some p2, Some p3], [Some p4, Some p5, Some p6]]"
proof -
  show "row_pages L = Inr ([None, None, Some p0, Some p1, Some p2, Some p3, Some p4, Some p5, Some p6], 3)"
    using assms by (simp add: row_pages_def numeral_2_eq_2)
  have l: "length [None, None, Some p0, Some p1, Some p2, Some p3, Some p4, Some p5, Some p6] = 9"
    by simp
  have d: "drop 3 [None, None, Some p0, Some p1, Some p2, Some p3, Some p4, Some p5, Some p6]
             = [Some p1, Some p2, Some p3, Some p4, Some p5, Some p6]"
          "drop 6 [None, None, Some p0, Some p1, Some p2, Some p3, Some p4, Some p5, Some p6]
             = [Some p4, Some p5, Some p6]"
    by (simp_all add: numeral_3_eq_3 numeral_Bit0 drop_Suc_Cons)
  show "rows_of [None, None, Some p0, Some p1, Some p2, Some p3, Some p4, Some p5, Some p6] 3
           = [[None, None, Some p0], [Some p1, Some p2, Some p3], [Some p4, Some p5, Some p6]]"
    unfolding rows_of_def l by (simp add: py_range_0_9_3 d)
qed

text \<open>
  C8. For a \<^verbatim>\<open>RowPageLayout\<close> with \<^verbatim>\<open>pagesPerRow\<close> at least 1,
  \<^verbatim>\<open>updatePagePositions\<close> returns, and puts every page where the grid of the
  specification has it (\<open>grid_positions\<close>): behind \<open>(pagesPerRow - pagesFirstRow) mod
  pagesPerRow\<close> empty slots when there are more pages than \<^verbatim>\<open>pagesPerRow\<close>, and
  otherwise in as many columns as there are pages; in a column as wide as the widest of
  the pages at its stride positions, in a row as high as the highest of its pages, and
  centered in that cell. With seven pages, \<^verbatim>\<open>pagesPerRow = 3\<close> and
  \<^verbatim>\<open>pagesFirstRow = 1\<close>, the rows of the method are \<open>[p0]\<close> behind two empty slots,
  \<open>[p1, p2, p3]\<close> and \<open>[p4, p5, p6]\<close>.
\<close>

theorem row_layout_grid:
  assumes "kind L = RowPageLayout" "1 \<le> pagesPerRow L"
  shows "updatePagePositions L = Inr (L\<lparr>pages := grid_positions L\<rparr>)
       \<and> (pages L = [p0, p1, p2, p3, p4, p5, p6] \<and> pagesPerRow L = 3 \<and> pagesFirstRow L = 1 \<longrightarrow>
            (\<exists>pgs cols. row_pages L = Inr (pgs, cols)
               \<and> rows_of pgs cols
                    = [[None, None, Some p0], [Some p1, Some p2, Some p3], [Some p4, Some p5, Some p6]]))"
proof -
  have "updatePagePositions L = Inr (L\<lparr>pages := grid_positions L\<rparr>)"
    using assms by (simp add: updatePagePositions_def updatePagePositions_row_grid)
  then show ?thesis using rows_of_seven[of L p0 p1 p2 p3 p4 p5 p6] by blast
qed

theorem row_layout_grid_witness:
  "kind grid7 = RowPageLayout \<and> 1 \<le> pagesPerRow grid7
   \<and> updatePagePositions grid7 = Inr (grid7\<lparr>pages := grid_positions grid7\<rparr>)
   \<and> map (\<lambda>p. (page_x p, page_y p)) (grid_positions grid7)
       = [(162, 6), (21, 29), (79, 24), (147, 19), (6, 72), (64, 67), (132, 62)]
   \<and> (\<exists>pgs cols. row_pages grid7 = Inr (pgs, cols)
         \<and> rows_of pgs cols
              = [[None, None, Some (sized_page 0 10 5)],
                 [Some (sized_page 1 20 15), Some (sized_page 2 30 25), Some (sized_page 3 40 35)],
                 [Some (sized_page 4 50 45), Some (sized_page 5 60 55), Some (sized_page 6 70 65)]])"
proof -
  have a: "kind grid7 = RowPageLayout" "1 \<le> pagesPerRow grid7"
    by (simp_all add: grid7_def new_layout_def)
  have p: "pages grid7 = [sized_page 0 10 5, sized_page 1 20 15, sized_page 2 30 25,
             sized_page 3 40 35, sized_page 4 50 45, sized_page 5 60 55, sized_page 6 70 65]"
          "pagesPerRow grid7 = 3" "pagesFirstRow grid7 = 1"
    by (simp_all add: grid7_def new_layout_def)
  have v: "map (\<lambda>p. (page_x p, page_y p)) (grid_positions grid7)
       = [(162, 6), (21, 29), (79, 24), (147, 19), (6, 72), (64, 67), (132, 62)]"
    by code_simp
  show ?thesis
    using row_layout_grid[OF a, of "sized_page 0 10 5" "sized_page 1 20 15" "sized_page 2 30 25"
        "sized_page 3 40 35" "sized_page 4 50 45" "sized_page 5 60 55" "sized_page 6 70 65"]
      a p v
    by simp
qed


end
